theory Spec2Isabelle
  imports Main
begin

section \<open>pansat.download.providers: the generic day-indexed file queries\<close>

text \<open>
  The module defines the abstract class \<open>DataProvider\<close>, whose methods
  \<open>get_preceeding_file\<close>, \<open>get_following_file\<close>, \<open>get_files_in_range\<close> and
  \<open>get_file_by_date\<close> are written in terms of the abstract method
  \<open>get_files(year, day)\<close> and of \<open>self.product.name_to_date\<close>, and two concrete
  providers, \<open>CopernicusProvider\<close> and \<open>IcareProvider\<close>.

  Conventions of the embedding.
  \<^item> A \<open>datetime\<close> is an integer number of microseconds (the resolution of Python's
    \<open>datetime\<close>) counted from a fixed origin at midnight; \<open>timedelta(days=1)\<close> is
    \<open>day_len\<close>. The sign of \<open>(a - b).total_seconds()\<close> is the sign of the integer
    difference, so the comparisons with \<open>0.0\<close> are comparisons of integers;
    the order of two such floats is the order of the integer differences as long as
    these are exactly representable, which they are below 140 years.
    The bounds of Python's \<open>datetime\<close> (years 1 to 9999) are not modelled.
  \<^item> The pair \<open>(t.year, int(t.strftime("%j")))\<close> names the calendar day of \<open>t\<close>. The
    model represents this pair by the day number \<open>day_key t\<close>, which determines the
    pair and is determined by it.
  \<^item> Every exception is a value of type \<open>error\<close>; a method returns \<open>error + 'a\<close>
    with \<open>Inl\<close> for a raised exception.
\<close>

subsection \<open>Exceptions and Python list primitives\<close>

datatype error =
    IndexError
  | NameError
  | AttributeError
  | ValueError string
  | Exception string

text \<open>\<open>ValueError s\<close> and \<open>Exception s\<close> carry the value that the message names
  (a file name, a product name, a path), not the whole message text.\<close>

type_synonym datetime = int
type_synonym filename = string

definition day_len :: int where
  "day_len = 86400000000"

definition day_key :: "datetime \<Rightarrow> int" where
  "day_key t = t div day_len"

text \<open>\<open>xs[0]\<close>, \<open>xs[-1]\<close> and \<open>xs[-1:]\<close> of Python.\<close>

definition py_first :: "'a list \<Rightarrow> error + 'a" where
  "py_first xs = (if xs = [] then Inl IndexError else Inr (hd xs))"

definition py_last :: "'a list \<Rightarrow> error + 'a" where
  "py_last xs = (if xs = [] then Inl IndexError else Inr (last xs))"

definition py_last_slice :: "'a list \<Rightarrow> 'a list" where
  "py_last_slice xs = (if xs = [] then [] else [last xs])"

text \<open>\<open>xs[i]\<close> with an integer \<open>i\<close>; an \<open>i\<close> below zero is taken from the end
  of the list, and an \<open>i\<close> outside both ranges raises.\<close>

definition py_index :: "'a list \<Rightarrow> int \<Rightarrow> error + 'a" where
  "py_index xs i =
     (if 0 \<le> i \<and> i < int (length xs) then Inr (xs ! nat i)
      else if i < 0 \<and> - int (length xs) \<le> i then Inr (xs ! nat (int (length xs) + i))
      else Inl IndexError)"

text \<open>\<open>xs.index(x)\<close>: the position of the first element equal to \<open>x\<close>,
  \<open>ValueError\<close> when there is none.\<close>

fun list_index :: "string list \<Rightarrow> string \<Rightarrow> error + nat" where
  "list_index [] x = Inl (ValueError x)"
| "list_index (y # ys) x =
     (if y = x then Inr 0
      else (case list_index ys x of Inl e \<Rightarrow> Inl e | Inr i \<Rightarrow> Inr (Suc i)))"

text \<open>A list comprehension \<open>[g(f) for f in fs]\<close> whose \<open>g\<close> may raise: the first
  exception, in list order, ends the comprehension.\<close>

fun map_raise :: "('a \<Rightarrow> error + 'b) \<Rightarrow> 'a list \<Rightarrow> error + 'b list" where
  "map_raise g [] = Inr []"
| "map_raise g (x # xs) =
     (case g x of Inl e \<Rightarrow> Inl e
      | Inr y \<Rightarrow> (case map_raise g xs of Inl e \<Rightarrow> Inl e | Inr ys \<Rightarrow> Inr (y # ys)))"

subsection \<open>DataProvider\<close>

text \<open>
  An instance of a subclass of \<open>DataProvider\<close> is given by its implementation of the
  abstract method \<open>get_files\<close> (called with the calendar day) and by its product's
  \<open>name_to_date\<close>. Both belong to code outside this module and may raise.
\<close>

record provider =
  get_files :: "int \<Rightarrow> error + filename list"
  name_to_date :: "filename \<Rightarrow> error + datetime"

definition get_preceeding_file :: "provider \<Rightarrow> filename \<Rightarrow> error + filename" where
  "get_preceeding_file p filename =
     (case name_to_date p filename of Inl e \<Rightarrow> Inl e
      | Inr t \<Rightarrow>
     (case get_files p (day_key t) of Inl e \<Rightarrow> Inl e
      | Inr files \<Rightarrow>
     (case list_index files filename of Inl e \<Rightarrow> Inl e
      | Inr i \<Rightarrow>
        if i = 0 then
          (case get_files p (day_key (t - day_len)) of Inl e \<Rightarrow> Inl e
           | Inr prev \<Rightarrow> py_last prev)
        else Inr (files ! (i - 1)))))"

definition get_following_file :: "provider \<Rightarrow> filename \<Rightarrow> error + filename" where
  "get_following_file p filename =
     (case name_to_date p filename of Inl e \<Rightarrow> Inl e
      | Inr t \<Rightarrow>
     (case get_files p (day_key t) of Inl e \<Rightarrow> Inl e
      | Inr files \<Rightarrow>
     (case list_index files filename of Inl e \<Rightarrow> Inl e
      | Inr i \<Rightarrow>
        if int i = int (length files) - 1 then
          (case get_files p (day_key (t + day_len)) of Inl e \<Rightarrow> Inl e
           | Inr nxt \<Rightarrow> py_first nxt)
        else Inr (files ! (i + 1)))))"

text \<open>
  One pass of the body of the \<open>while\<close> loop of \<open>get_files_in_range\<close> over a day's
  listing \<open>fs\<close> with decoded timestamps \<open>ts\<close>: the lists \<open>dts0\<close>, \<open>pos0\<close>,
  \<open>dts1\<close>, \<open>pos1\<close> and \<open>inds\<close> of the source, the files selected, and \<open>pos1\<close>, which
  the code reads again after the loop.
\<close>

definition day_selection ::
  "datetime \<Rightarrow> datetime \<Rightarrow> filename list \<Rightarrow> datetime list \<Rightarrow> filename list \<times> bool list" where
  "day_selection t0 t1 fs ts =
     (let dts0 = map (\<lambda>tf. tf - t0) ts;
          pos0 = map (\<lambda>d. d \<ge> 0) dts0;
          dts1 = map (\<lambda>tf. tf - t1) ts;
          pos1 = map (\<lambda>d. d > 0) dts1;
          inds = map fst (filter (\<lambda>(i, p0, p1). p0 \<and> \<not> p1) (enumerate 0 (zip pos0 pos1)))
      in (map (\<lambda>i. fs ! i) inds, pos1))"

text \<open>
  The body of the \<open>while\<close> loop at cursor \<open>t\<close> (lines 136 to 150): the new values
  of \<open>files\<close> and \<open>pos1\<close>, or the exception of \<open>get_files\<close> or \<open>name_to_date\<close>.
\<close>

definition loop_body ::
  "provider \<Rightarrow> datetime \<Rightarrow> datetime \<Rightarrow> datetime \<Rightarrow> filename list
     \<Rightarrow> error + (filename list \<times> bool list option)" where
  "loop_body p t0 t1 t files =
     (case get_files p (day_key t) of Inl e \<Rightarrow> Inl e
      | Inr fs \<Rightarrow>
     (case map_raise (name_to_date p) fs of Inl e \<Rightarrow> Inl e
      | Inr ts \<Rightarrow>
         Inr (files @ fst (day_selection t0 t1 fs ts), Some (snd (day_selection t0 t1 fs ts)))))"

text \<open>
  The \<open>while\<close> loop. Its state is the cursor \<open>t\<close>, the accumulated \<open>files\<close> and the
  variable \<open>pos1\<close>, which is unbound (\<open>None\<close>) until the body has run once.
\<close>

function range_loop ::
  "provider \<Rightarrow> datetime \<Rightarrow> datetime \<Rightarrow> datetime \<Rightarrow> filename list \<Rightarrow> bool list option
     \<Rightarrow> error + (filename list \<times> bool list option)" where
  "range_loop p t0 t1 t files pos1 =
     (if t1 - t > 0 then
        (case loop_body p t0 t1 t files of Inl e \<Rightarrow> Inl e
         | Inr (files', pos1') \<Rightarrow> range_loop p t0 t1 (t + day_len) files' pos1')
      else Inr (files, pos1))"
  by pat_completeness auto
termination
  by (relation "measure (\<lambda>(p, t0, t1, t, files, pos1). nat (t1 - t))")
     (auto simp: day_len_def)

declare range_loop.simps [simp del]

text \<open>
  The loop body run over an explicit list of cursor values, one after the other,
  stopping at the first exception: the loop with its guard replaced by a list.
\<close>

fun run_days ::
  "provider \<Rightarrow> datetime \<Rightarrow> datetime \<Rightarrow> datetime list \<Rightarrow> filename list \<Rightarrow> bool list option
     \<Rightarrow> error + (filename list \<times> bool list option)" where
  "run_days p t0 t1 [] files pos1 = Inr (files, pos1)"
| "run_days p t0 t1 (t # cursors) files pos1 =
     (case loop_body p t0 t1 t files of Inl e \<Rightarrow> Inl e
      | Inr (files', pos1') \<Rightarrow> run_days p t0 t1 cursors files' pos1')"

text \<open>The number of cursor values \<open>t0, t0 + 1 day, ...\<close> that lie before \<open>t1\<close>:
  the number of days between \<open>t0\<close> and \<open>t1\<close>, rounded up.\<close>

definition days_between :: "datetime \<Rightarrow> datetime \<Rightarrow> nat" where
  "days_between t0 t1 = nat ((t1 - t0 + day_len - 1) div day_len)"

text \<open>The first \<open>n\<close> values of the cursor when it starts at \<open>t\<close>.\<close>

definition cursors :: "datetime \<Rightarrow> nat \<Rightarrow> datetime list" where
  "cursors t n = map (\<lambda>k. t + int k * day_len) [0..<n]"

text \<open>Lines 154 to 156: \<open>if t0_inclusive: files = [get_preceeding_file(files[0])] + files\<close>.\<close>

definition inclusive_prepend :: "provider \<Rightarrow> bool \<Rightarrow> filename list \<Rightarrow> error + filename list" where
  "inclusive_prepend p t0_inclusive files =
     (if t0_inclusive then
        (case py_first files of Inl e \<Rightarrow> Inl e
         | Inr f0 \<Rightarrow>
        (case get_preceeding_file p f0 of Inl e \<Rightarrow> Inl e
         | Inr f_p \<Rightarrow> Inr (f_p # files)))
      else Inr files)"

text \<open>Lines 158 to 162: the test \<open>not pos1[-1] and not files == []\<close> and the
  \<open>try\<close> block whose bare \<open>except\<close> discards every exception.\<close>

definition trailing_append ::
  "provider \<Rightarrow> bool list option \<Rightarrow> filename list \<Rightarrow> error + filename list" where
  "trailing_append p pos1 files =
     (case pos1 of None \<Rightarrow> Inl NameError
      | Some ps \<Rightarrow>
     (case py_last ps of Inl e \<Rightarrow> Inl e
      | Inr b \<Rightarrow>
        if \<not> b \<and> \<not> files = [] then
          (case get_following_file p (last files) of
             Inl e \<Rightarrow> Inr files
           | Inr g \<Rightarrow> Inr (files @ [g]))
        else Inr files))"

definition get_files_in_range ::
  "provider \<Rightarrow> datetime \<Rightarrow> datetime \<Rightarrow> bool \<Rightarrow> error + filename list" where
  "get_files_in_range p t0 t1 t0_inclusive =
     (case range_loop p t0 t1 t0 [] None of Inl e \<Rightarrow> Inl e
      | Inr (files, pos1) \<Rightarrow>
     (case inclusive_prepend p t0_inclusive files of Inl e \<Rightarrow> Inl e
      | Inr files' \<Rightarrow> trailing_append p pos1 files'))"

text \<open>
  \<open>get_file_by_date\<close>. \<open>np.argsort\<close> is a parameter: numpy's default sort gives a
  permutation that sorts the keys and leaves the order of equal keys open.
  \<open>argsort_stable\<close> is the instance that keeps equal keys in list order.
\<close>

definition argsort_stable :: "int list \<Rightarrow> nat list" where
  "argsort_stable dts = sort_key (\<lambda>i. dts ! i) [0..<length dts]"

definition get_file_by_date ::
  "(int list \<Rightarrow> nat list) \<Rightarrow> provider \<Rightarrow> datetime \<Rightarrow> error + filename" where
  "get_file_by_date argsort p t =
     (case get_files p (day_key (t - day_len)) of Inl e \<Rightarrow> Inl e
      | Inr prev \<Rightarrow>
     (case get_files p (day_key t) of Inl e \<Rightarrow> Inl e
      | Inr cur \<Rightarrow>
     (let files = py_last_slice prev @ cur in
     (case map_raise (name_to_date p) files of Inl e \<Rightarrow> Inl e
      | Inr ts \<Rightarrow>
        (let dts = map (\<lambda>tf. tf - t) ts;
             inds = argsort dts;
             indices = filter (\<lambda>j. dts ! (inds ! j) < 0) [0..<length inds];
             ind = (if length indices = 0 then int (length dts) - 1
                    else int (inds ! last indices))
         in py_index files ind)))))"

subsection \<open>CopernicusProvider and IcareProvider: construction\<close>

text \<open>The argument \<open>product\<close> of both constructors is represented by
  \<open>product.__name__\<close>, the only part of it that the constructors read.\<close>

definition copernicus_products :: "string list" where
  "copernicus_products =
     [''reanalysis-era5-land'',
      ''reanalysis-era5-land-monthly-means'',
      ''reanalysis-era5-pressure-levels'',
      ''reanalysis-era5-pressure-levels-monthly-means'',
      ''reanalysis-era5-single-levels'',
      ''reanalysis-era5-single-levels-monthly-means'']"

record copernicus_provider =
  cop_product :: string
  cop_variables :: "string list"
  cop_domain :: "string list"

text \<open>
  \<open>CopernicusProvider.__init__\<close>. In the branch of an unsupported product the first
  statement is \<open>list(copernicus_products.keys())\<close>; \<open>copernicus_products\<close> is a list
  and has no method \<open>keys\<close>, so the statement raises \<open>AttributeError\<close> and the
  \<open>raise ValueError(...)\<close> after it is not reached. A \<open>domain\<close> of \<open>None\<close> is stored
  as the empty string, here the empty list.
\<close>

definition CopernicusProvider_init ::
  "string \<Rightarrow> string list \<Rightarrow> string list option \<Rightarrow> error + copernicus_provider" where
  "CopernicusProvider_init product_name variables domain =
     (if \<not> product_name \<in> set copernicus_products then Inl AttributeError
      else Inr \<lparr>cop_product = product_name, cop_variables = variables,
                cop_domain = (case domain of None \<Rightarrow> [] | Some d \<Rightarrow> d)\<rparr>)"

definition icare_products :: "(string \<times> string list) list" where
  "icare_products =
     [(''CloudSat_2b_GeoProf'', [''SPACEBORNE'', ''CLOUDSAT'', ''2B-GEOPROF'']),
      (''CloudSat_1b_CPR'', [''SPACEBORNE'', ''CLOUDSAT'', ''1B-CPR'']),
      (''CloudSat_MODIS_Aux'', [''SPACEBORNE'', ''CLOUDSAT'', ''MODIS-AUX'']),
      (''CloudSat_ECMWF_Aux'', [''SPACEBORNE'', ''CLOUDSAT'', ''ECMWF-AUX''])]"

text \<open>\<open>os.path.join\<close> on components that contain no separator.\<close>

fun path_join :: "string list \<Rightarrow> string" where
  "path_join [] = []"
| "path_join [c] = c"
| "path_join (c # cs) = c @ ''/'' @ path_join cs"

record icare_provider =
  product :: string
  product_path :: string
  cache :: "string \<rightharpoonup> string list"

definition IcareProvider_init :: "string \<Rightarrow> error + icare_provider" where
  "IcareProvider_init product_name =
     (case map_of icare_products product_name of
        None \<Rightarrow> Inl (ValueError product_name)
      | Some components \<Rightarrow>
          Inr \<lparr>product = product_name, product_path = path_join components,
               cache = Map.empty\<rparr>)"

subsection \<open>IcareProvider: the cached FTP listing\<close>

text \<open>
  The FTP server and the credential store are outside the module. They are a
  parameter \<open>srv\<close> that fixes, for each remote operation, whether it raises and what
  it returns; the operations that a call issues are appended to a log.
\<close>

datatype ftp_op = Connect | Login | Cwd string | Nlst string

record ftp_server =
  connect :: "error option"
  get_identity :: "error + (string \<times> string)"
  login :: "string \<Rightarrow> string \<Rightarrow> error option"
  cwd :: "string \<Rightarrow> error option"
  nlst :: "string \<Rightarrow> error + string list"

type_synonym icare_state = "icare_provider \<times> ftp_op list"

text \<open>
  \<open>__ftp_listing_to_list__(path, str)\<close>, the only way the module calls it: with
  \<open>t = str\<close> the comprehension \<open>[t(l) for l in listing]\<close> copies the listing.
\<close>

definition ftp_listing_to_list ::
  "ftp_server \<Rightarrow> string \<Rightarrow> icare_state \<Rightarrow> (error + string list) \<times> icare_state" where
  "ftp_listing_to_list srv path st =
     (case st of (self, log) \<Rightarrow>
      (case cache self path of
         Some listing \<Rightarrow> (Inr listing, st)
       | None \<Rightarrow>
        (case connect srv of
           Some e \<Rightarrow> (Inl e, (self, log @ [Connect]))
         | None \<Rightarrow>
        (case get_identity srv of
           Inl e \<Rightarrow> (Inl e, (self, log @ [Connect]))
         | Inr (user, passwd) \<Rightarrow>
        (case login srv user passwd of
           Some e \<Rightarrow> (Inl e, (self, log @ [Connect, Login]))
         | None \<Rightarrow>
        (case cwd srv path of
           Some e \<Rightarrow> (Inl (Exception path), (self, log @ [Connect, Login, Cwd path]))
         | None \<Rightarrow>
        (case nlst srv path of
           Inl e \<Rightarrow> (Inl e, (self, log @ [Connect, Login, Cwd path, Nlst path]))
         | Inr listing \<Rightarrow>
            (Inr listing,
             (self\<lparr>cache := (cache self)(path \<mapsto> listing)\<rparr>,
              log @ [Connect, Login, Cwd path, Nlst path])))))))))"

text \<open>
  \<open>IcareProvider.get_files(year, day)\<close>. The path is built by the standard library
  (\<open>str\<close>, \<open>datetime.strptime\<close> with \<open>"%Y%j"\<close>, \<open>strftime\<close>, \<open>os.path.join\<close>) from
  \<open>self.product_path\<close>, \<open>year\<close> and \<open>day\<close>; this computation is the parameter
  \<open>mk_path\<close>, which may raise (\<open>strptime\<close> rejects a day that is no day of the year).
  \<open>name[-3:]\<close> is the last three characters, or the whole name when it is shorter.
\<close>

definition IcareProvider_get_files ::
  "(string \<Rightarrow> int \<Rightarrow> int \<Rightarrow> error + string) \<Rightarrow> ftp_server \<Rightarrow> int \<Rightarrow> int \<Rightarrow> icare_state
     \<Rightarrow> (error + string list) \<times> icare_state" where
  "IcareProvider_get_files mk_path srv year day st =
     (case mk_path (product_path (fst st)) year day of
        Inl e \<Rightarrow> (Inl e, st)
      | Inr path \<Rightarrow>
       (case ftp_listing_to_list srv path st of
          (Inl e, st') \<Rightarrow> (Inl e, st')
        | (Inr listing, st') \<Rightarrow>
            (Inr (filter (\<lambda>name. drop (length name - 3) name = ''hdf'') listing), st')))"

text \<open>A sequence of \<open>get_files\<close> calls on one instance, each with the server as it
  is at the time of the call; the results are discarded.\<close>

fun run_calls ::
  "(string \<Rightarrow> int \<Rightarrow> int \<Rightarrow> error + string) \<Rightarrow> (ftp_server \<times> int \<times> int) list \<Rightarrow> icare_state
     \<Rightarrow> icare_state" where
  "run_calls mk_path [] st = st"
| "run_calls mk_path ((srv, year, day) # cs) st =
     run_calls mk_path cs (snd (IcareProvider_get_files mk_path srv year day st))"

subsection \<open>Providers given by tables\<close>

text \<open>A provider whose day listings and file dates are finite tables: a day that
  the table does not list has no files, and a name that the table does not
  list has no date.\<close>

definition table_provider ::
  "(int \<times> filename list) list \<Rightarrow> (filename \<times> datetime) list \<Rightarrow> provider" where
  "table_provider days dates =
     \<lparr>get_files = (\<lambda>d. case map_of days d of None \<Rightarrow> Inr [] | Some fs \<Rightarrow> Inr fs),
      name_to_date = (\<lambda>f. case map_of dates f of None \<Rightarrow> Inl (ValueError f) | Some t \<Rightarrow> Inr t)\<rparr>"

text \<open>Two consecutive days with two files each.\<close>

definition two_days :: provider where
  "two_days =
     table_provider
       [(0, [''a'', ''b'']), (1, [''c'', ''d''])]
       [(''a'', 1), (''b'', 2), (''c'', day_len + 1), (''d'', day_len + 2)]"

text \<open>One day with two files, a day without files before and after it.\<close>

definition one_day :: provider where
  "one_day = table_provider [(0, [''a'', ''b''])] [(''a'', 5), (''b'', 7)]"

text \<open>A provider without any file.\<close>

definition no_files :: provider where
  "no_files = table_provider [] []"

text \<open>Two days whose listings share a file: \<open>b\<close> is dated in the second day and
  is listed under the first day as well, as a file that covers the midnight
  between them. Each listing is free of duplicates and in ascending order of
  the decoded timestamps.\<close>

definition straddle :: provider where
  "straddle =
     table_provider
       [(0, [''a'', ''b'']), (1, [''b'', ''c''])]
       [(''a'', 1), (''b'', day_len + 1), (''c'', day_len + 2)]"

text \<open>The calendar day of the last cursor value of the loop of
  \<open>get_files_in_range\<close>, the final day that the loop lists.\<close>

definition final_day :: "datetime \<Rightarrow> datetime \<Rightarrow> int" where
  "final_day t0 t1 = day_key (t0 + (int (days_between t0 t1) - 1) * day_len)"

text \<open>
  An FTP server on which every operation succeeds and every directory lists the
  same two names, a server that refuses every connection, a path builder, and an
  \<open>IcareProvider\<close> instance with an empty cache and an empty log.
\<close>

definition ftp_up :: ftp_server where
  "ftp_up =
     \<lparr>connect = None, get_identity = Inr (''user'', ''secret''),
      login = (\<lambda>u pw. None), cwd = (\<lambda>path. None),
      nlst = (\<lambda>path. Inr [''granule.hdf'', ''readme.txt''])\<rparr>"

definition ftp_down :: ftp_server where
  "ftp_down = ftp_up\<lparr>connect := Some (Exception ''connection refused'')\<rparr>"

definition flat_path :: "string \<Rightarrow> int \<Rightarrow> int \<Rightarrow> error + string" where
  "flat_path root year day =
     (if 1 \<le> day \<and> day \<le> 366 then Inr (path_join [root, ''day''])
      else Inl (ValueError ''day''))"

definition fresh_icare :: icare_state where
  "fresh_icare =
     (\<lparr>product = ''CloudSat_1b_CPR'', product_path = ''SPACEBORNE/CLOUDSAT/1B-CPR'',
       cache = Map.empty\<rparr>, [])"

subsection \<open>Assumptions on the listings\<close>

text \<open>
  The module's docstrings state what the generic methods expect of \<open>get_files\<close>:
  it returns the files of the given day, in chronological order. The predicates
  below say this of the listing of one day \<open>d\<close>; a day whose listing raises
  satisfies them.
  \<^item> \<open>dated_in p d g\<close>: \<open>name_to_date\<close> decodes \<open>g\<close> to a time of calendar day \<open>d\<close>.
  \<^item> \<open>listing_consistent p d\<close>: the listing of \<open>d\<close> has no duplicates and each of its
    entries is dated in \<open>d\<close>.
  \<^item> \<open>listing_chronological p d\<close>: each entry of the listing of \<open>d\<close> is dated in \<open>d\<close>
    and the decoded times are in non-decreasing order.
\<close>

definition dated_in :: "provider \<Rightarrow> int \<Rightarrow> filename \<Rightarrow> bool" where
  "dated_in p d g = (case name_to_date p g of Inl e \<Rightarrow> False | Inr t \<Rightarrow> day_key t = d)"

definition listing_consistent :: "provider \<Rightarrow> int \<Rightarrow> bool" where
  "listing_consistent p d =
     (case get_files p d of Inl e \<Rightarrow> True
      | Inr fs \<Rightarrow> distinct fs \<and> list_all (dated_in p d) fs)"

definition listing_chronological :: "provider \<Rightarrow> int \<Rightarrow> bool" where
  "listing_chronological p d =
     (case get_files p d of Inl e \<Rightarrow> True
      | Inr fs \<Rightarrow>
       (case map_raise (name_to_date p) fs of Inl e \<Rightarrow> False
        | Inr ts \<Rightarrow> sorted ts \<and> list_all (\<lambda>t. day_key t = d) ts))"

section \<open>Properties\<close>

subsection \<open>Calendar days, list positions and the example providers\<close>

lemma day_key_prev: "day_key (t - day_len) = day_key t - 1"
  by (simp add: day_key_def day_len_def)

lemma day_key_next: "day_key (t + day_len) = day_key t + 1"
  by (simp add: day_key_def day_len_def)

lemma list_index_Inr:
  "list_index xs x = Inr i \<Longrightarrow> i < length xs \<and> xs ! i = x \<and> (\<forall>j<i. xs ! j \<noteq> x)"
proof (induction xs arbitrary: i)
  case Nil
  then show ?case by simp
next
  case (Cons y ys)
  show ?case
  proof (cases "y = x")
    case True
    with Cons.prems show ?thesis by simp
  next
    case False
    with Cons.prems obtain k where k: "list_index ys x = Inr k" "i = Suc k"
      by (auto split: sum.splits)
    from Cons.IH [OF k(1)] False k(2) show ?thesis
      by (auto simp: nth_Cons split: nat.splits)
  qed
qed

lemma list_index_mem: "x \<in> set xs \<Longrightarrow> \<exists>i. list_index xs x = Inr i"
  by (induction xs) auto

lemma list_index_distinct:
  "distinct xs \<Longrightarrow> i < length xs \<Longrightarrow> list_index xs (xs ! i) = Inr i"
proof (induction xs arbitrary: i)
  case Nil
  then show ?case by simp
next
  case (Cons y ys)
  then show ?case
    by (cases i) (auto simp: nth_Cons)
qed

lemma two_days_simps:
  "get_files two_days d = (if d = 0 then Inr [''a'', ''b''] else if d = 1 then Inr [''c'', ''d''] else Inr [])"
  "name_to_date two_days ''a'' = Inr 1"
  "name_to_date two_days ''b'' = Inr 2"
  "name_to_date two_days ''c'' = Inr (day_len + 1)"
  "name_to_date two_days ''d'' = Inr (day_len + 2)"
  by (simp_all add: two_days_def table_provider_def)

lemma day_key_small: "day_key 1 = 0" "day_key 2 = 0" "day_key (day_len + 1) = 1" "day_key (day_len + 2) = 1"
  by (simp_all add: day_key_def day_len_def)


subsection \<open>The preceding and the following file\<close>

text \<open>
  C5. Let \<open>f\<close> be present in the listing \<open>files\<close> of its own calendar day and let \<open>i\<close>
  be its position there, the first index that holds \<open>f\<close>.
  \<open>get_preceeding_file\<close> returns the entry at \<open>i - 1\<close> when \<open>i > 0\<close>, and the last
  entry of the listing of the previous calendar day when \<open>i = 0\<close>.
  \<open>get_following_file\<close> returns the entry at \<open>i + 1\<close> when there is one, and the
  first entry of the listing of the next calendar day when \<open>f\<close> is at the last position.
\<close>

theorem get_preceeding_following_by_position:
  assumes "name_to_date p f = Inr t"
    and "get_files p (day_key t) = Inr files"
    and "f \<in> set files"
  shows "\<exists>i<length files. files ! i = f \<and> (\<forall>j<i. files ! j \<noteq> f) \<and>
           (0 < i \<longrightarrow> get_preceeding_file p f = Inr (files ! (i - 1))) \<and>
           (i = 0 \<longrightarrow> (\<forall>prev. get_files p (day_key t - 1) = Inr prev \<and> prev \<noteq> []
                          \<longrightarrow> get_preceeding_file p f = Inr (last prev))) \<and>
           (i + 1 < length files \<longrightarrow> get_following_file p f = Inr (files ! (i + 1))) \<and>
           (i + 1 = length files \<longrightarrow> (\<forall>nxt. get_files p (day_key t + 1) = Inr nxt \<and> nxt \<noteq> []
                          \<longrightarrow> get_following_file p f = Inr (hd nxt)))"
proof -
  from assms(3) obtain i where i: "list_index files f = Inr i"
    using list_index_mem by blast
  from list_index_Inr [OF i]
  have props: "i < length files" "files ! i = f" "\<forall>j<i. files ! j \<noteq> f" by auto
  have pre_pos: "0 < i \<longrightarrow> get_preceeding_file p f = Inr (files ! (i - 1))"
    using assms i by (simp add: get_preceeding_file_def)
  have pre_zero: "i = 0 \<longrightarrow> (\<forall>prev. get_files p (day_key t - 1) = Inr prev \<and> prev \<noteq> []
                          \<longrightarrow> get_preceeding_file p f = Inr (last prev))"
    using assms i by (simp add: get_preceeding_file_def day_key_prev py_last_def)
  have fol_in: "i + 1 < length files \<longrightarrow> get_following_file p f = Inr (files ! (i + 1))"
    using assms i by (auto simp add: get_following_file_def)
  have fol_last: "i + 1 = length files \<longrightarrow> (\<forall>nxt. get_files p (day_key t + 1) = Inr nxt \<and> nxt \<noteq> []
                          \<longrightarrow> get_following_file p f = Inr (hd nxt))"
    using assms i props(1)
    by (auto simp add: get_following_file_def day_key_next py_first_def)
  from props pre_pos pre_zero fol_in fol_last show ?thesis by blast
qed

theorem get_preceeding_following_by_position_witness:
  "get_preceeding_file two_days ''b'' = Inr ''a'' \<and>
   get_following_file two_days ''b'' = Inr ''c'' \<and>
   get_preceeding_file two_days ''c'' = Inr ''b'' \<and>
   get_following_file two_days ''c'' = Inr ''d''"
proof -
  have b: "name_to_date two_days ''b'' = Inr 2"
          "get_files two_days (day_key 2) = Inr [''a'', ''b'']"
          "''b'' \<in> set [''a'', ''b'']"
    by (simp_all add: two_days_simps day_key_small)
  have c: "name_to_date two_days ''c'' = Inr (day_len + 1)"
          "get_files two_days (day_key (day_len + 1)) = Inr [''c'', ''d'']"
          "''c'' \<in> set [''c'', ''d'']"
    by (simp_all add: two_days_simps day_key_small)
  from get_preceeding_following_by_position [OF b]
  obtain i where i: "i < length [''a'', ''b'']" "[''a'', ''b''] ! i = ''b''"
     "0 < i \<longrightarrow> get_preceeding_file two_days ''b'' = Inr ([''a'', ''b''] ! (i - 1))"
     "i + 1 = length [''a'', ''b''] \<longrightarrow>
        (\<forall>nxt. get_files two_days (day_key 2 + 1) = Inr nxt \<and> nxt \<noteq> []
                          \<longrightarrow> get_following_file two_days ''b'' = Inr (hd nxt))"
    by blast
  from i(1,2) have i1: "i = 1" by (cases i) auto
  from get_preceeding_following_by_position [OF c]
  obtain k where k: "k < length [''c'', ''d'']" "\<forall>j<k. [''c'', ''d''] ! j \<noteq> ''c''"
     "k = 0 \<longrightarrow> (\<forall>prev. get_files two_days (day_key (day_len + 1) - 1) = Inr prev \<and> prev \<noteq> []
                          \<longrightarrow> get_preceeding_file two_days ''c'' = Inr (last prev))"
     "k + 1 < length [''c'', ''d''] \<longrightarrow>
        get_following_file two_days ''c'' = Inr ([''c'', ''d''] ! (k + 1))"
    by blast
  from k(1,2) have k0: "k = 0" by (cases k) auto
  from i(3,4) i1 k(3,4) k0 show ?thesis
    by (simp add: two_days_simps day_key_small)
qed

lemma dated_inD: "dated_in p d g \<Longrightarrow> \<exists>t. name_to_date p g = Inr t \<and> day_key t = d"
  by (cases "name_to_date p g") (simp_all add: dated_in_def)

text \<open>
  C6 (as the code has it). Let \<open>f\<close> be an entry of the listing of a day \<open>d\<close>, and
  let the listings of \<open>d\<close> and of the next day be free of duplicates, with every
  entry decoded by \<open>name_to_date\<close> to a time of the day that it is listed under.
  Whenever \<open>get_following_file f\<close> returns a file \<open>g\<close>, \<open>get_preceeding_file g\<close>
  returns \<open>f\<close>. (When \<open>f\<close> is the last entry of the last day that has files,
  \<open>get_following_file f\<close> raises and the hypothesis does not hold.)
\<close>

theorem following_then_preceeding:
  assumes "get_files p d = Inr files"
    and "f \<in> set files"
    and "listing_consistent p d"
    and "listing_consistent p (d + 1)"
    and "get_following_file p f = Inr g"
  shows "get_preceeding_file p g = Inr f"
proof -
  from assms(1,3) have dist: "distinct files" and dated: "list_all (dated_in p d) files"
    by (simp_all add: listing_consistent_def)
  from dated assms(2) obtain t where t: "name_to_date p f = Inr t" "day_key t = d"
    using dated_inD by (fastforce simp: list_all_iff)
  from assms(2) obtain i where i: "list_index files f = Inr i"
    using list_index_mem by blast
  from list_index_Inr [OF i] have ilt: "i < length files" and fi: "files ! i = f" by auto
  show ?thesis
  proof (cases "i + 1 < length files")
    case True
    with assms(1,5) t i have g: "g = files ! (i + 1)"
      by (auto simp: get_following_file_def)
    with True dated obtain t' where t': "name_to_date p g = Inr t'" "day_key t' = d"
      using dated_inD by (fastforce simp: list_all_length)
    from dist True g have "list_index files g = Inr (i + 1)"
      using list_index_distinct by blast
    with t' assms(1) fi show ?thesis
      by (simp add: get_preceeding_file_def)
  next
    case False
    with ilt have last: "i + 1 = length files" by simp
    then have flast: "last files = f" using fi ilt
      by (metis add_diff_cancel_right' last_conv_nth length_0_conv not_less_zero)
    from assms(1,5) t i last obtain nxt where
      nxt: "get_files p (d + 1) = Inr nxt" "nxt \<noteq> []" "g = hd nxt"
      by (auto simp: get_following_file_def day_key_next py_first_def split: sum.splits if_splits)
    from nxt(1) assms(4) have dn: "distinct nxt" "list_all (dated_in p (d + 1)) nxt"
      by (simp_all add: listing_consistent_def)
    from dn(2) nxt(2,3) obtain t' where t': "name_to_date p g = Inr t'" "day_key t' = d + 1"
      using dated_inD by (cases nxt) fastforce+
    from nxt(2,3) have "list_index nxt g = Inr 0"
      by (cases nxt) auto
    with t' nxt(1) assms(1) ilt flast show ?thesis
      by (auto simp: get_preceeding_file_def day_key_prev py_last_def)
  qed
qed

lemma two_days_consistent: "listing_consistent two_days 0" "listing_consistent two_days 1"
  by (simp_all add: listing_consistent_def two_days_simps dated_in_def day_key_small)

theorem following_then_preceeding_witness:
  "get_following_file two_days ''a'' = Inr ''b'' \<and>
   get_preceeding_file two_days ''b'' = Inr ''a'' \<and>
   get_following_file two_days ''b'' = Inr ''c'' \<and>
   get_preceeding_file two_days ''c'' = Inr ''b''"
proof -
  have l0: "get_files two_days 0 = Inr [''a'', ''b'']"
    by (simp add: two_days_simps)
  have c1: "listing_consistent two_days (0 + 1)"
    using two_days_consistent(2) by simp
  have fa: "get_following_file two_days ''a'' = Inr ''b''"
    by (simp add: get_following_file_def two_days_simps day_key_small)
  have fb: "get_following_file two_days ''b'' = Inr ''c''"
    by (simp add: get_following_file_def two_days_simps day_key_small day_key_next py_first_def)
  have "get_preceeding_file two_days ''b'' = Inr ''a''"
    by (rule following_then_preceeding [OF l0 _ two_days_consistent(1) c1 fa]) simp
  moreover have "get_preceeding_file two_days ''c'' = Inr ''b''"
    by (rule following_then_preceeding [OF l0 _ two_days_consistent(1) c1 fb]) simp
  ultimately show ?thesis using fa fb by simp
qed

text \<open>
  C6 as stated asks only for listings that are free of duplicates and in the
  order of the decoded timestamps. In \<open>straddle\<close> both listings are, and \<open>a\<close> is not
  the last entry of the last day; the following file of \<open>a\<close> is \<open>b\<close>, which is dated
  in the second day, and the preceding file of \<open>b\<close> is the last entry of the first
  day's listing, \<open>b\<close> itself, not \<open>a\<close>.
\<close>

theorem following_then_preceeding_counterexample:
  "get_files straddle 0 = Inr [''a'', ''b''] \<and>
   get_files straddle 1 = Inr [''b'', ''c''] \<and>
   distinct [''a'', ''b''] \<and> distinct [''b'', ''c''] \<and>
   map_raise (name_to_date straddle) [''a'', ''b''] = Inr [1, day_len + 1] \<and>
   sorted [1, day_len + 1] \<and>
   map_raise (name_to_date straddle) [''b'', ''c''] = Inr [day_len + 1, day_len + 2] \<and>
   sorted [day_len + 1, day_len + 2] \<and>
   get_following_file straddle ''a'' = Inr ''b'' \<and>
   get_preceeding_file straddle ''b'' = Inr ''b'' \<and>
   ''b'' \<noteq> ''a''"
  by (simp add: straddle_def table_provider_def get_following_file_def
      get_preceeding_file_def py_last_def day_key_def day_len_def)

subsection \<open>The day loop of the range query\<close>

lemma days_between_nonpos: "\<not> t1 - t > 0 \<Longrightarrow> days_between t t1 = 0"
  by (simp add: days_between_def day_len_def)

lemma days_between_step: "t1 - t > 0 \<Longrightarrow> days_between t t1 = Suc (days_between (t + day_len) t1)"
proof -
  assume pos: "t1 - t > 0"
  have "(t1 - t + day_len - 1) div day_len = (t1 - t - 1) div day_len + 1"
    by (simp add: day_len_def)
  moreover have "t1 - (t + day_len) + day_len - 1 = t1 - t - 1" by simp
  moreover from pos have "0 \<le> (t1 - t - 1) div day_len"
    by (simp add: day_len_def pos_imp_zdiv_nonneg_iff)
  ultimately show ?thesis
    by (simp add: days_between_def nat_add_distrib)
qed

lemma cursors_Suc: "cursors t (Suc n) = t # cursors (t + day_len) n"
proof -
  have "[0..<Suc n] = 0 # map Suc [0..<n]"
    by (simp add: upt_conv_Cons map_Suc_upt del: upt_Suc)
  then show ?thesis
    by (simp add: cursors_def comp_def algebra_simps del: upt_Suc)
qed

lemma range_loop_unroll:
  "range_loop p t0 t1 t files pos1 = run_days p t0 t1 (cursors t (days_between t t1)) files pos1"
proof (induction p t0 t1 t files pos1 rule: range_loop.induct)
  case (1 p t0 t1 t files pos1)
  show ?case
  proof (cases "t1 - t > 0")
    case False
    then show ?thesis
      by (subst range_loop.simps) (simp add: days_between_nonpos cursors_def)
  next
    case True
    show ?thesis
    proof (cases "loop_body p t0 t1 t files")
      case (Inl e)
      with True show ?thesis
        by (subst range_loop.simps) (simp add: days_between_step cursors_Suc)
    next
      case (Inr r)
      obtain files' pos1' where r: "r = (files', pos1')" by (cases r)
      from "1.IH" [OF True Inr r [symmetric]] Inr r True show ?thesis
        by (subst range_loop.simps) (simp add: days_between_step cursors_Suc)
    qed
  qed
qed


lemma guard_holds: "k < days_between t t1 \<Longrightarrow> t1 - (t + int k * day_len) > 0"
proof (induction k arbitrary: t)
  case 0
  then show ?case using days_between_nonpos [of t1 t] by fastforce
next
  case (Suc k)
  then have pos: "t1 - t > 0" using days_between_nonpos [of t1 t] by fastforce
  with Suc.prems have "k < days_between (t + day_len) t1"
    by (simp add: days_between_step)
  from Suc.IH [OF this] show ?case by (simp add: algebra_simps)
qed

lemma guard_fails: "\<not> t1 - (t + int (days_between t t1) * day_len) > 0"
proof (induction "days_between t t1" arbitrary: t)
  case 0
  then show ?case using days_between_step [of t1 t] by fastforce
next
  case (Suc n)
  then have pos: "t1 - t > 0" using days_between_nonpos [of t1 t] by fastforce
  with Suc.hyps(2) have n: "n = days_between (t + day_len) t1"
    by (simp add: days_between_step)
  have eq: "days_between t t1 = Suc n" using Suc.hyps(2) by simp
  from Suc.hyps(1) [OF n] have "\<not> t1 - (t + day_len + int n * day_len) > 0"
    using n by simp
  then show ?case unfolding eq by (simp add: algebra_simps)
qed

text \<open>
  C10. The loop of \<open>get_files_in_range\<close> terminates: it is the loop body run over
  the finite list of cursor values \<open>t0, t0 + 1 day, ...\<close> of length
  \<open>days_between t0 t1\<close>, the number of days from \<open>t0\<close> to \<open>t1\<close> rounded up (zero
  when \<open>t1 \<le> t0\<close>). The guard \<open>t1 - t > 0\<close> holds at each of these cursor values
  and fails at the next one.
\<close>

theorem range_loop_iterations:
  "range_loop p t0 t1 t0 [] None =
     run_days p t0 t1 (cursors t0 (days_between t0 t1)) [] None \<and>
   length (cursors t0 (days_between t0 t1)) = days_between t0 t1 \<and>
   (\<forall>k<days_between t0 t1. t1 - (t0 + int k * day_len) > 0) \<and>
   \<not> t1 - (t0 + int (days_between t0 t1) * day_len) > 0"
  using range_loop_unroll guard_holds guard_fails by (simp add: cursors_def)

lemma days_between_example: "days_between 0 (day_len + 5) = 2"
  by (simp add: days_between_def day_len_def)

lemma cursors_two: "cursors t 2 = [t, t + day_len]"
  by (simp add: cursors_def numeral_2_eq_2)

theorem range_loop_iterations_witness:
  "range_loop two_days 0 (day_len + 5) 0 [] None =
     Inr ([''a'', ''b'', ''c'', ''d''], Some [False, False]) \<and>
   0 < day_len + 5 - (0 + int 1 * day_len) \<and>
   \<not> 0 < day_len + 5 - (0 + int 2 * day_len)"
proof -
  have run: "run_days two_days 0 (day_len + 5) [0, day_len] [] None =
     Inr ([''a'', ''b'', ''c'', ''d''], Some [False, False])"
    by (simp add: loop_body_def two_days_simps day_selection_def day_key_def day_len_def enumerate_eq_zip)
  have "(1::nat) < 2" by simp
  with range_loop_iterations [of two_days 0 "day_len + 5"] run show ?thesis
    by (simp add: days_between_example cursors_two)
qed

subsection \<open>The list comprehensions of the range query\<close>

lemma map_raise_Inr:
  "map_raise g xs = Inr ys \<Longrightarrow> map g xs = map Inr ys"
proof (induction xs arbitrary: ys)
  case Nil
  then show ?case by simp
next
  case (Cons x xs)
  then show ?case by (auto split: sum.splits)
qed

lemma map_raise_length: "map_raise g xs = Inr ys \<Longrightarrow> length ys = length xs"
  using map_raise_Inr [of g xs ys] by (metis length_map)

lemma map_raise_nth:
  "map_raise g xs = Inr ys \<Longrightarrow> i < length xs \<Longrightarrow> g (xs ! i) = Inr (ys ! i)"
  using map_raise_Inr [of g xs ys] map_raise_length [of g xs ys]
  by (metis nth_map)

lemma map_raise_last:
  assumes "map_raise g xs = Inr ys" and "xs \<noteq> []"
  shows "g (last xs) = Inr (last ys)"
proof -
  have len: "length ys = length xs" by (rule map_raise_length [OF assms(1)])
  with assms(2) have ys: "ys \<noteq> []" by auto
  have "g (xs ! (length xs - 1)) = Inr (ys ! (length xs - 1))"
    using assms(2) by (intro map_raise_nth [OF assms(1)]) simp
  with assms(2) ys len show ?thesis by (simp add: last_conv_nth)
qed

lemma map_raise_append:
  "map_raise g xs = Inr as \<Longrightarrow> map_raise g ys = Inr bs \<Longrightarrow> map_raise g (xs @ ys) = Inr (as @ bs)"
  by (induction xs arbitrary: as) (auto split: sum.splits)

lemma map_raise_all:
  "(\<And>x. x \<in> set xs \<Longrightarrow> \<exists>y. g x = Inr y) \<Longrightarrow> \<exists>ys. map_raise g xs = Inr ys"
proof (induction xs)
  case Nil
  then show ?case by simp
next
  case (Cons x xs)
  then obtain y ys where "g x = Inr y" "map_raise g xs = Inr ys"
    by (meson list.set_intros)
  then show ?case by simp
qed

text \<open>The index comprehension of the loop body is a filter on the day's listing.\<close>

lemma select_by_index:
  "length bs = length fs \<Longrightarrow>
   map (\<lambda>i. (pre @ fs) ! i) (map fst (filter (\<lambda>(i, b). Q b) (enumerate (length pre) bs))) =
   map fst (filter (\<lambda>(f, b). Q b) (zip fs bs))"
proof (induction bs arbitrary: fs pre)
  case Nil
  then show ?case by simp
next
  case (Cons b bs)
  then obtain f fs' where fs: "fs = f # fs'" "length bs = length fs'"
    by (cases fs) auto
  from Cons.IH [OF fs(2), of "pre @ [f]"] fs(1) show ?case
    by simp
qed

lemma day_selection_fst:
  assumes "length ts = length fs"
  shows "fst (day_selection t0 t1 fs ts) =
           map fst (filter (\<lambda>(f, tf). t0 \<le> tf \<and> tf \<le> t1) (zip fs ts))"
proof -
  let ?bs = "zip (map (\<lambda>d. d \<ge> 0) (map (\<lambda>tf. tf - t0) ts)) (map (\<lambda>d. d > 0) (map (\<lambda>tf. tf - t1) ts))"
  have len: "length ?bs = length fs" using assms by simp
  have "fst (day_selection t0 t1 fs ts) =
          map (\<lambda>i. ([] @ fs) ! i) (map fst (filter (\<lambda>(i, b). fst b \<and> \<not> snd b) (enumerate (length ([]::filename list)) ?bs)))"
    by (simp add: day_selection_def Let_def case_prod_unfold)
  also have "\<dots> = map fst (filter (\<lambda>(f, b). fst b \<and> \<not> snd b) (zip fs ?bs))"
    by (rule select_by_index [OF len])
  also have "\<dots> = map fst (filter (\<lambda>(f, tf). t0 \<le> tf \<and> tf \<le> t1) (zip fs ts))"
    using assms
  proof (induction fs arbitrary: ts)
    case Nil
    then show ?case by simp
  next
    case (Cons f fs)
    then obtain u us where "ts = u # us" "length us = length fs" by (cases ts) auto
    with Cons.IH [of us] show ?case by auto
  qed
  finally show ?thesis .
qed

lemma day_selection_snd: "snd (day_selection t0 t1 fs ts) = map (\<lambda>tf. t1 < tf) ts"
  by (simp add: day_selection_def Let_def comp_def)


lemma trailing_append_Cons:
  "sel \<noteq> [] \<Longrightarrow>
   trailing_append p pos1 (g # sel) =
     (case trailing_append p pos1 sel of Inl e \<Rightarrow> Inl e | Inr r \<Rightarrow> Inr (g # r))"
  by (simp add: trailing_append_def split: option.splits sum.splits)

lemma trailing_append_Nil:
  "trailing_append p pos1 [] = Inr r \<Longrightarrow> r = []"
  by (simp add: trailing_append_def split: option.splits sum.splits)

lemma trailing_append_hd:
  "trailing_append p pos1 sel = Inr r \<Longrightarrow> sel \<noteq> [] \<Longrightarrow> hd r = hd sel"
  by (auto simp add: trailing_append_def split: option.splits sum.splits if_splits)

lemmas range_eval =
  get_files_in_range_def range_loop_unroll days_between_def cursors_def loop_body_def
  day_selection_def Let_def enumerate_eq_zip inclusive_prepend_def trailing_append_def
  py_first_def py_last_def get_following_file_def get_preceeding_file_def
  day_key_def day_len_def

lemma two_days_range:
  "get_files_in_range two_days day_len (day_len + 5) False = Inr [''c'', ''d'']"
  by (simp add: range_eval two_days_simps)

lemma run_days_no_files:
  "\<forall>c\<in>set cs. get_files p (day_key c) = Inr [] \<Longrightarrow>
   run_days p t0 t1 cs files pos1 = Inr (files, if cs = [] then pos1 else Some [])"
proof (induction cs arbitrary: files pos1)
  case Nil
  then show ?case by simp
next
  case (Cons c cs)
  then have "loop_body p t0 t1 c files = Inr (files, Some [])"
    by (simp add: loop_body_def day_selection_def)
  with Cons show ?case by simp
qed

lemma days_between_pos: "t0 < t1 \<Longrightarrow> 0 < days_between t0 t1"
  using days_between_step [of t1 t0] by simp

subsection \<open>The inclusive start of a range\<close>

text \<open>
  C7. When the call without \<open>t0_inclusive\<close> returns a non-empty list with first
  element \<open>f\<close>, the call with \<open>t0_inclusive=True\<close> returns the same list with
  \<open>get_preceeding_file(f)\<close> put in front; an exception of \<open>get_preceeding_file(f)\<close>
  is the exception of the call.
\<close>

theorem inclusive_prepends_preceeding:
  assumes "get_files_in_range p t0 t1 False = Inr (f # fs)"
  shows "get_files_in_range p t0 t1 True =
           (case get_preceeding_file p f of Inl e \<Rightarrow> Inl e | Inr g \<Rightarrow> Inr (g # f # fs))"
proof -
  from assms obtain sel pos1 where
    loop: "range_loop p t0 t1 t0 [] None = Inr (sel, pos1)" and
    ta: "trailing_append p pos1 sel = Inr (f # fs)"
    by (auto simp: get_files_in_range_def inclusive_prepend_def split: sum.splits)
  from ta have ne: "sel \<noteq> []"
    using trailing_append_Nil by blast
  with ta have hd: "hd sel = f"
    using trailing_append_hd by fastforce
  with ne have first: "py_first sel = Inr f"
    by (simp add: py_first_def)
  show ?thesis
  proof (cases "get_preceeding_file p f")
    case (Inl e)
    with loop first show ?thesis
      by (simp add: get_files_in_range_def inclusive_prepend_def)
  next
    case (Inr g)
    with loop first ta ne show ?thesis
      by (simp add: get_files_in_range_def inclusive_prepend_def trailing_append_Cons)
  qed
qed


theorem inclusive_prepends_preceeding_witness:
  "get_files_in_range two_days day_len (day_len + 5) False = Inr [''c'', ''d''] \<and>
   get_preceeding_file two_days ''c'' = Inr ''b'' \<and>
   get_files_in_range two_days day_len (day_len + 5) True = Inr [''b'', ''c'', ''d'']"
proof -
  have pre: "get_preceeding_file two_days ''c'' = Inr ''b''"
    by (simp add: get_preceeding_file_def two_days_simps day_key_def day_len_def py_last_def)
  from inclusive_prepends_preceeding [OF two_days_range] pre two_days_range
  show ?thesis by simp
qed


subsection \<open>A range without files\<close>

text \<open>
  C4. When \<open>t0 < t1\<close> and the listing of every day that the loop visits is empty,
  \<open>get_files_in_range\<close> does not return the empty list: it raises \<open>IndexError\<close>,
  at \<open>pos1[-1]\<close> (or at \<open>files[0]\<close> when \<open>t0_inclusive\<close> is set).
\<close>

theorem no_files_in_range_raises:
  assumes "t0 < t1"
    and "\<forall>c\<in>set (cursors t0 (days_between t0 t1)). get_files p (day_key c) = Inr []"
  shows "get_files_in_range p t0 t1 t0_inclusive = Inl IndexError"
proof -
  from assms(1) have "cursors t0 (days_between t0 t1) \<noteq> []"
    using days_between_pos [of t0 t1] by (simp add: cursors_def)
  with run_days_no_files [OF assms(2), of t0 t1 "[]" None]
  have "range_loop p t0 t1 t0 [] None = Inr ([], Some [])"
    by (simp add: range_loop_unroll)
  then show ?thesis
    by (simp add: get_files_in_range_def inclusive_prepend_def trailing_append_def
        py_first_def py_last_def)
qed

theorem no_files_in_range_raises_witness:
  "(0::int) < 1 \<and> get_files_in_range no_files 0 1 False = Inl IndexError"
proof -
  have "\<forall>c\<in>set (cursors 0 (days_between 0 1)). get_files no_files (day_key c) = Inr []"
    by (simp add: no_files_def table_provider_def)
  with no_files_in_range_raises [of 0 1 no_files False] show ?thesis by simp
qed

subsection \<open>The trailing file of a range\<close>

lemma run_days_snoc:
  "run_days p t0 t1 (cs @ [c]) files pos1 =
     (case run_days p t0 t1 cs files pos1 of Inl e \<Rightarrow> Inl e
      | Inr (files', pos1') \<Rightarrow> loop_body p t0 t1 c files')"
proof (induction cs arbitrary: files pos1)
  case Nil
  then show ?case by (simp split: sum.splits)
next
  case (Cons d cs)
  then show ?case by (simp split: sum.splits prod.splits)
qed

lemma cursors_snoc: "cursors t (Suc n) = cursors t n @ [t + int n * day_len]"
  by (simp add: cursors_def)

lemma range_loop_final_pos1:
  assumes "t0 < t1" and "range_loop p t0 t1 t0 [] None = Inr (sel, pos1)"
  shows "\<exists>fs ts. get_files p (final_day t0 t1) = Inr fs \<and>
                 map_raise (name_to_date p) fs = Inr ts \<and>
                 pos1 = Some (map (\<lambda>tf. t1 < tf) ts)"
proof -
  from assms(1) obtain m where m: "days_between t0 t1 = Suc m"
    using days_between_pos [of t0 t1] by (cases "days_between t0 t1") auto
  then have fd: "final_day t0 t1 = day_key (t0 + int m * day_len)"
    by (simp add: final_day_def)
  from assms(2) m have
    "(case run_days p t0 t1 (cursors t0 m) [] None of Inl e \<Rightarrow> Inl e
      | Inr (files', pos1') \<Rightarrow> loop_body p t0 t1 (t0 + int m * day_len) files') = Inr (sel, pos1)"
    by (simp add: range_loop_unroll cursors_snoc run_days_snoc del: run_days.simps)
  then obtain files' where "loop_body p t0 t1 (t0 + int m * day_len) files' = Inr (sel, pos1)"
    by (auto split: sum.splits)
  then show ?thesis unfolding fd
    by (auto simp: loop_body_def day_selection_snd split: sum.splits)
qed

lemma one_day_simps:
  "get_files one_day d = (if d = 0 then Inr [''a'', ''b''] else Inr [])"
  "name_to_date one_day ''a'' = Inr 5"
  "name_to_date one_day ''b'' = Inr 7"
  by (simp_all add: one_day_def table_provider_def)

lemma final_day_small: "final_day 0 6 = 0" "final_day 0 5 = 0" "final_day 0 10 = 0"
  by (simp_all add: final_day_def days_between_def day_key_def day_len_def)

lemma one_day_loop:
  "range_loop one_day 0 6 0 [] None = Inr ([''a''], Some [False, True])"
  "range_loop one_day 0 10 0 [] None = Inr ([''a'', ''b''], Some [False, False])"
  by (simp_all add: range_eval one_day_simps)

text \<open>
  C3 (as the code has it). Let \<open>t0 < t1\<close>, let the loop and the inclusive prepend
  succeed with the list \<open>files\<close>, and let the listing of the final day of the loop
  be non-empty with its last entry dated \<open>tlast\<close>. The following file of the last
  entry of \<open>files\<close> is appended exactly when \<open>tlast \<le> t1\<close> (the test \<open>pos1[-1]\<close>,
  "after \<open>t1\<close>", of the final day's last entry is false) and \<open>files\<close> is
  non-empty; an exception of \<open>get_following_file\<close> leaves \<open>files\<close> as it is.
\<close>

theorem trailing_file_condition:
  assumes "t0 < t1"
    and "range_loop p t0 t1 t0 [] None = Inr (sel, pos1)"
    and "inclusive_prepend p t0_inclusive sel = Inr files"
    and "get_files p (final_day t0 t1) = Inr fs"
    and "fs \<noteq> []"
    and "name_to_date p (last fs) = Inr tlast"
  shows "get_files_in_range p t0 t1 t0_inclusive =
           Inr (if tlast \<le> t1 \<and> files \<noteq> []
                then (case get_following_file p (last files) of
                        Inl e \<Rightarrow> files
                      | Inr g \<Rightarrow> files @ [g])
                else files)"
proof -
  from range_loop_final_pos1 [OF assms(1,2)] assms(4) obtain ts where
    ts: "map_raise (name_to_date p) fs = Inr ts" and
    pos1: "pos1 = Some (map (\<lambda>tf. t1 < tf) ts)"
    by auto
  from map_raise_last [OF ts assms(5)] assms(6) have tl_eq: "last ts = tlast" by simp
  from map_raise_length [OF ts] assms(5) have ne: "ts \<noteq> []" by auto
  with tl_eq have "py_last (map (\<lambda>tf. t1 < tf) ts) = Inr (t1 < tlast)"
    by (simp add: py_last_def last_map)
  with pos1 have "trailing_append p pos1 files =
           Inr (if tlast \<le> t1 \<and> files \<noteq> []
                then (case get_following_file p (last files) of
                        Inl e \<Rightarrow> files
                      | Inr g \<Rightarrow> files @ [g])
                else files)"
    by (simp add: trailing_append_def not_less split: sum.splits)
  with assms(2,3) show ?thesis
    by (simp add: get_files_in_range_def)
qed

theorem trailing_file_condition_witness:
  "get_files_in_range one_day 0 10 False = Inr [''a'', ''b''] \<and>
   get_files_in_range one_day 0 6 False = Inr [''a'']"
proof -
  have fol: "get_following_file one_day ''b'' = Inl IndexError"
    by (simp add: range_eval one_day_simps)
  have a: "get_files_in_range one_day 0 10 False = Inr [''a'', ''b'']"
    using trailing_file_condition [of 0 10 one_day "[''a'', ''b'']" "Some [False, False]"
        False "[''a'', ''b'']" "[''a'', ''b'']" 7] fol
    by (simp add: one_day_loop inclusive_prepend_def final_day_small one_day_simps)
  have b: "get_files_in_range one_day 0 6 False = Inr [''a'']"
    using trailing_file_condition [of 0 6 one_day "[''a'']" "Some [False, True]"
        False "[''a'']" "[''a'', ''b'']" 7]
    by (simp add: one_day_loop inclusive_prepend_def final_day_small one_day_simps)
  from a b show ?thesis by simp
qed

text \<open>
  C3 as stated fails in both directions. In \<open>one_day\<close> with the range from 0 to 6
  the final day has the entry \<open>b\<close> at or after \<open>t1\<close>, the list \<open>[a]\<close> is non-empty
  and \<open>a\<close> has the following file \<open>b\<close>, but nothing is appended. In \<open>two_days\<close>
  with the range from 0 to 10 no entry of the final day is at or after \<open>t1\<close>, and
  the following file \<open>c\<close> is appended.
\<close>

theorem trailing_file_claim_counterexample:
  "get_files one_day (final_day 0 6) = Inr [''a'', ''b''] \<and>
   name_to_date one_day ''b'' = Inr 7 \<and> (6::int) \<le> 7 \<and>
   get_following_file one_day ''a'' = Inr ''b'' \<and>
   get_files_in_range one_day 0 6 False = Inr [''a''] \<and>
   get_files two_days (final_day 0 10) = Inr [''a'', ''b''] \<and>
   name_to_date two_days ''a'' = Inr 1 \<and> name_to_date two_days ''b'' = Inr 2 \<and>
   (1::int) < 10 \<and> (2::int) < 10 \<and>
   get_files_in_range two_days 0 10 False = Inr [''a'', ''b'', ''c'']"
  by (simp add: range_eval one_day_simps two_days_simps final_day_def)

subsection \<open>Bounds and order of the files of a range\<close>

lemma map_raise_selected:
  "map_raise g fs = Inr ts \<Longrightarrow>
   map_raise g (map fst (filter (\<lambda>(f, tf). Q tf) (zip fs ts))) = Inr (filter Q ts)"
proof (induction fs arbitrary: ts)
  case Nil
  then show ?case by simp
next
  case (Cons f fs)
  then obtain u us where ts: "ts = u # us" "g f = Inr u" "map_raise g fs = Inr us"
    by (auto split: sum.splits)
  from Cons.IH [OF ts(3)] ts(1,2) show ?case by simp
qed

lemma loop_body_Inr:
  assumes "loop_body p t0 t1 c files = Inr (files', pos1')"
  shows "\<exists>fs ts. get_files p (day_key c) = Inr fs \<and> map_raise (name_to_date p) fs = Inr ts \<and>
           files' = files @ map fst (filter (\<lambda>(f, tf). t0 \<le> tf \<and> tf \<le> t1) (zip fs ts)) \<and>
           map_raise (name_to_date p) (map fst (filter (\<lambda>(f, tf). t0 \<le> tf \<and> tf \<le> t1) (zip fs ts)))
             = Inr (filter (\<lambda>tf. t0 \<le> tf \<and> tf \<le> t1) ts)"
proof -
  from assms obtain fs ts where
    fs: "get_files p (day_key c) = Inr fs" and ts: "map_raise (name_to_date p) fs = Inr ts" and
    f': "files' = files @ fst (day_selection t0 t1 fs ts)"
    by (auto simp: loop_body_def split: sum.splits)
  from map_raise_length [OF ts] have "length ts = length fs" .
  from day_selection_fst [OF this] f' fs ts map_raise_selected [OF ts] show ?thesis
    by auto
qed

lemma run_days_bounds:
  "run_days p t0 t1 cs files pos1 = Inr (files', pos1') \<Longrightarrow>
   \<exists>new tss. files' = files @ new \<and> map_raise (name_to_date p) new = Inr tss \<and>
             (\<forall>tf\<in>set tss. t0 \<le> tf \<and> tf \<le> t1)"
proof (induction cs arbitrary: files pos1)
  case Nil
  then show ?case by simp
next
  case (Cons c cs)
  from Cons.prems obtain f1 p1 where
    body: "loop_body p t0 t1 c files = Inr (f1, p1)" and
    rest: "run_days p t0 t1 cs f1 p1 = Inr (files', pos1')"
    by (auto split: sum.splits)
  from loop_body_Inr [OF body] obtain new1 ts1 where
    n1: "f1 = files @ new1" "map_raise (name_to_date p) new1 = Inr ts1"
        "\<forall>tf\<in>set ts1. t0 \<le> tf \<and> tf \<le> t1"
    by fastforce
  from Cons.IH [OF rest] obtain new2 ts2 where
    n2: "files' = f1 @ new2" "map_raise (name_to_date p) new2 = Inr ts2"
        "\<forall>tf\<in>set ts2. t0 \<le> tf \<and> tf \<le> t1"
    by blast
  from n1 n2 map_raise_append [OF n1(2) n2(2)] show ?case
    by (intro exI [of _ "new1 @ new2"] exI [of _ "ts1 @ ts2"]) auto
qed

lemma map_raise_mem:
  "map_raise g xs = Inr ys \<Longrightarrow> x \<in> set xs \<Longrightarrow> \<exists>y\<in>set ys. g x = Inr y"
  by (induction xs arbitrary: ys) (auto split: sum.splits)


lemma day_key_mono: "a \<le> b \<Longrightarrow> day_key a \<le> day_key b"
  by (simp add: day_key_def day_len_def zdiv_mono1)

lemma day_key_less: "day_key a < day_key b \<Longrightarrow> a < b"
  using day_key_mono [of b a] by fastforce

lemma chronologicalD:
  "listing_chronological p d \<Longrightarrow> get_files p d = Inr fs \<Longrightarrow>
   \<exists>ts. map_raise (name_to_date p) fs = Inr ts \<and> sorted ts \<and> (\<forall>t\<in>set ts. day_key t = d)"
  by (auto simp: listing_chronological_def list_all_iff split: sum.splits)




lemma run_days_cursors_Suc:
  assumes "run_days p t0 t1 (cursors c (Suc n)) files pos1 = Inr (files', pos1')"
  shows "\<exists>f1 p1. loop_body p t0 t1 c files = Inr (f1, p1) \<and>
           run_days p t0 t1 (cursors (c + day_len) n) f1 p1 = Inr (files', pos1')"
proof (cases "loop_body p t0 t1 c files")
  case (Inl e)
  with assms show ?thesis by (simp add: cursors_Suc)
next
  case (Inr r)
  with assms show ?thesis by (cases r) (simp add: cursors_Suc)
qed

lemma run_days_sorted:
  assumes chron: "\<forall>d. listing_chronological p d"
  shows "run_days p t0 t1 (cursors c n) files pos1 = Inr (files', pos1') \<Longrightarrow>
         \<exists>new tss. files' = files @ new \<and> map_raise (name_to_date p) new = Inr tss \<and>
                   sorted tss \<and> (\<forall>tf\<in>set tss. day_key c \<le> day_key tf)"
proof (induction n arbitrary: c files pos1)
  case 0
  then have "files' = files @ []" by (simp add: cursors_def)
  moreover have "map_raise (name_to_date p) [] = Inr []" by simp
  ultimately show ?case by (intro exI [of _ "[]"]) simp
next
  case (Suc n)
  from run_days_cursors_Suc [OF Suc.prems] obtain f1 p1 where
    body: "loop_body p t0 t1 c files = Inr (f1, p1)" and
    rest: "run_days p t0 t1 (cursors (c + day_len) n) f1 p1 = Inr (files', pos1')"
    by (elim exE conjE)
  let ?Q = "\<lambda>tf. t0 \<le> tf \<and> tf \<le> t1"
  from loop_body_Inr [OF body] obtain fs ts where
    fs: "get_files p (day_key c) = Inr fs" and ts: "map_raise (name_to_date p) fs = Inr ts" and
    f1: "f1 = files @ map fst (filter (\<lambda>(f, tf). t0 \<le> tf \<and> tf \<le> t1) (zip fs ts))" and
    m1: "map_raise (name_to_date p) (map fst (filter (\<lambda>(f, tf). t0 \<le> tf \<and> tf \<le> t1) (zip fs ts)))
           = Inr (filter ?Q ts)"
    by (elim exE conjE)
  define new1 where "new1 = map fst (filter (\<lambda>(f, tf). t0 \<le> tf \<and> tf \<le> t1) (zip fs ts))"
  from chron have "listing_chronological p (day_key c)" ..
  from chronologicalD [OF this fs] ts have srt: "sorted ts" and day: "\<forall>t\<in>set ts. day_key t = day_key c"
    by simp_all
  from srt have s1: "sorted (filter ?Q ts)" by (rule sorted_wrt_filter)
  from Suc.IH [OF rest] obtain new2 ts2 where
    n2: "files' = f1 @ new2" "map_raise (name_to_date p) new2 = Inr ts2" "sorted ts2"
        "\<forall>tf\<in>set ts2. day_key (c + day_len) \<le> day_key tf"
    by (elim exE conjE)
  have cross: "x \<le> y" if x: "x \<in> set (filter ?Q ts)" and y: "y \<in> set ts2" for x y
  proof -
    from x have "x \<in> set ts" by simp
    with day have "day_key x = day_key c" by blast
    moreover from y n2(4) have "day_key (c + day_len) \<le> day_key y" by blast
    ultimately have "day_key x < day_key y" by (simp add: day_key_next)
    then have "x < y" by (rule day_key_less)
    then show "x \<le> y" by simp
  qed
  have later: "day_key c \<le> day_key tf" if tf: "tf \<in> set (filter ?Q ts @ ts2)" for tf
  proof (cases "tf \<in> set ts2")
    case True
    with n2(4) have "day_key (c + day_len) \<le> day_key tf" by blast
    then show ?thesis by (simp add: day_key_next)
  next
    case False
    with tf have "tf \<in> set ts" by simp
    with day have "day_key tf = day_key c" by blast
    then show ?thesis by simp
  qed
  have srt2: "sorted (filter ?Q ts @ ts2)"
    unfolding sorted_append using s1 n2(3) cross by blast
  have app: "map_raise (name_to_date p) (new1 @ new2) = Inr (filter ?Q ts @ ts2)"
    using m1 n2(2) unfolding new1_def by (rule map_raise_append)
  have eq: "files' = files @ (new1 @ new2)" using f1 n2(1) by (simp add: new1_def)
  have "files' = files @ (new1 @ new2) \<and>
        map_raise (name_to_date p) (new1 @ new2) = Inr (filter ?Q ts @ ts2) \<and>
        sorted (filter ?Q ts @ ts2) \<and> (\<forall>tf\<in>set (filter ?Q ts @ ts2). day_key c \<le> day_key tf)"
    using eq app srt2 later by (intro conjI ballI)
  then show ?case by (intro exI)
qed

lemma following_later:
  assumes "listing_chronological p (day_key t)"
    and "listing_chronological p (day_key t + 1)"
    and "name_to_date p f = Inr t"
    and "get_following_file p f = Inr g"
  shows "\<exists>tg. name_to_date p g = Inr tg \<and> t \<le> tg"
proof -
  from assms(3,4) obtain files i where
    files: "get_files p (day_key t) = Inr files" and i: "list_index files f = Inr i"
    by (auto simp: get_following_file_def split: sum.splits)
  from list_index_Inr [OF i] have ilt: "i < length files" and fi: "files ! i = f" by auto
  from chronologicalD [OF assms(1) files] obtain ts where
    ts: "map_raise (name_to_date p) files = Inr ts" "sorted ts" by blast
  have len: "length ts = length files" by (rule map_raise_length [OF ts(1)])
  from map_raise_nth [OF ts(1) ilt] fi assms(3) have ti: "ts ! i = t" by simp
  show ?thesis
  proof (cases "i + 1 < length files")
    case True
    with assms(3,4) files i have g: "g = files ! (i + 1)"
      by (auto simp: get_following_file_def)
    from map_raise_nth [OF ts(1) True] g have "name_to_date p g = Inr (ts ! (i + 1))" by simp
    moreover from ts(2) True len have "ts ! i \<le> ts ! (i + 1)"
      by (simp add: sorted_nth_mono)
    ultimately show ?thesis using ti by auto
  next
    case False
    with ilt have "int i = int (length files) - 1" by simp
    with assms(3,4) files i obtain nxt where
      nxt: "get_files p (day_key t + 1) = Inr nxt" "nxt \<noteq> []" "g = hd nxt"
      by (auto simp: get_following_file_def day_key_next py_first_def split: sum.splits if_splits)
    from chronologicalD [OF assms(2) nxt(1)] obtain us where
      us: "map_raise (name_to_date p) nxt = Inr us" "\<forall>u\<in>set us. day_key u = day_key t + 1"
      by blast
    from map_raise_mem [OF us(1), of g] nxt(2,3) obtain tg where
      tg: "tg \<in> set us" "name_to_date p g = Inr tg" by auto
    with us(2) have "day_key t < day_key tg" by simp
    then have "t < tg" by (rule day_key_less)
    with tg show ?thesis by auto
  qed
qed



lemma sorted_le_last: "sorted xs \<Longrightarrow> x \<in> set xs \<Longrightarrow> x \<le> last (xs :: 'a::linorder list)"
proof (induction xs)
  case Nil
  then show ?case by simp
next
  case (Cons y ys)
  then show ?case by (cases "ys = []") auto
qed

lemma trailing_append_cases:
  assumes "trailing_append p pos1 sel = Inr fs"
  shows "fs = sel \<or> (sel \<noteq> [] \<and> (\<exists>g. fs = sel @ [g] \<and> get_following_file p (last sel) = Inr g))"
proof -
  from assms obtain ps b where "pos1 = Some ps" "py_last ps = Inr b"
    by (auto simp: trailing_append_def split: option.splits sum.splits)
  with assms show ?thesis
    by (cases "get_following_file p (last sel)") (auto simp: trailing_append_def split: if_splits)
qed

lemma two_days_chronological: "\<forall>d. listing_chronological two_days d"
  by (simp add: listing_chronological_def two_days_simps day_key_small)

lemma two_days_range_10:
  "get_files_in_range two_days 0 10 False = Inr [''a'', ''b'', ''c'']"
  by (simp add: range_eval two_days_simps)

text \<open>
  C1 (as the code has it). Let \<open>t0 < t1\<close> and let \<open>get_files_in_range(t0, t1)\<close>,
  without \<open>t0_inclusive\<close>, return \<open>fs\<close>. Then \<open>fs\<close> is the list \<open>sel\<close> that the loop
  accumulated, followed by at most one trailing entry, the following file of the
  last entry of \<open>sel\<close>. Every file of \<open>sel\<close> has a decoded timestamp \<open>tf\<close> with
  \<open>t0 \<le> tf\<close> and \<open>tf \<le> t1\<close>: a file dated exactly \<open>t1\<close> is selected. When the
  listing of every day is in chronological order and holds files dated in that
  day, the decoded timestamps of \<open>fs\<close> are in non-decreasing order.
\<close>

theorem range_files_bounds_and_order:
  assumes "t0 < t1" and "get_files_in_range p t0 t1 False = Inr fs"
  shows "\<exists>sel pos1 tr.
           range_loop p t0 t1 t0 [] None = Inr (sel, pos1) \<and> fs = sel @ tr \<and>
           (tr = [] \<or> (sel \<noteq> [] \<and> (\<exists>g. tr = [g] \<and> get_following_file p (last sel) = Inr g))) \<and>
           (\<forall>f\<in>set sel. \<exists>tf. name_to_date p f = Inr tf \<and> t0 \<le> tf \<and> tf \<le> t1) \<and>
           ((\<forall>d. listing_chronological p d) \<longrightarrow>
              (\<exists>tss. map_raise (name_to_date p) fs = Inr tss \<and> sorted tss))"
proof -
  from assms(2) obtain sel pos1 where
    loop: "range_loop p t0 t1 t0 [] None = Inr (sel, pos1)" and
    ta: "trailing_append p pos1 sel = Inr fs"
    by (auto simp: get_files_in_range_def inclusive_prepend_def split: sum.splits)
  from loop have run: "run_days p t0 t1 (cursors t0 (days_between t0 t1)) [] None = Inr (sel, pos1)"
    by (simp add: range_loop_unroll)
  define tr where "tr = drop (length sel) fs"
  from trailing_append_cases [OF ta] have
    shape: "fs = sel @ tr"
           "tr = [] \<or> (sel \<noteq> [] \<and> (\<exists>g. tr = [g] \<and> get_following_file p (last sel) = Inr g))"
    by (auto simp: tr_def)
  from run_days_bounds [OF run] obtain tss where
    tss: "map_raise (name_to_date p) sel = Inr tss" "\<forall>tf\<in>set tss. t0 \<le> tf \<and> tf \<le> t1"
    by auto
  have bounds: "\<forall>f\<in>set sel. \<exists>tf. name_to_date p f = Inr tf \<and> t0 \<le> tf \<and> tf \<le> t1"
  proof
    fix f assume "f \<in> set sel"
    from map_raise_mem [OF tss(1) this] tss(2)
    show "\<exists>tf. name_to_date p f = Inr tf \<and> t0 \<le> tf \<and> tf \<le> t1" by blast
  qed
  have order: "\<exists>us. map_raise (name_to_date p) fs = Inr us \<and> sorted us"
    if chron: "\<forall>d. listing_chronological p d"
  proof -
    from run_days_sorted [OF chron run] tss(1) have srt: "sorted tss" by auto
    from shape(2) show ?thesis
    proof
      assume "tr = []"
      with shape(1) tss(1) srt show ?thesis by auto
    next
      assume "sel \<noteq> [] \<and> (\<exists>g. tr = [g] \<and> get_following_file p (last sel) = Inr g)"
      then obtain g where ne: "sel \<noteq> []" and g: "tr = [g]"
        "get_following_file p (last sel) = Inr g" by blast
      from map_raise_last [OF tss(1) ne] have l: "name_to_date p (last sel) = Inr (last tss)" .
      from chron have c1: "listing_chronological p (day_key (last tss))"
        and c2: "listing_chronological p (day_key (last tss) + 1)" by blast+
      from following_later [OF c1 c2 l g(2)] obtain tg where
        tg: "name_to_date p g = Inr tg" "last tss \<le> tg" by blast
      from tg(1) have "map_raise (name_to_date p) [g] = Inr [tg]" by simp
      from map_raise_append [OF tss(1) this] shape(1) g(1)
      have m: "map_raise (name_to_date p) fs = Inr (tss @ [tg])" by simp
      have "x \<le> tg" if "x \<in> set tss" for x
        using sorted_le_last [OF srt that] tg(2) by simp
      with srt have "sorted (tss @ [tg])"
        unfolding sorted_append by auto
      with m show ?thesis by blast
    qed
  qed
  from loop shape bounds order show ?thesis by blast
qed


theorem range_files_bounds_and_order_witness:
  "(0::int) < 10 \<and>
   get_files_in_range two_days 0 10 False = Inr [''a'', ''b'', ''c''] \<and>
   (\<forall>d. listing_chronological two_days d) \<and>
   (\<exists>tss. map_raise (name_to_date two_days) [''a'', ''b'', ''c''] = Inr tss \<and> sorted tss)"
proof -
  have lt: "(0::int) < 10" by simp
  from range_files_bounds_and_order [OF lt two_days_range_10] two_days_chronological
  have "\<exists>tss. map_raise (name_to_date two_days) [''a'', ''b'', ''c''] = Inr tss \<and> sorted tss"
    by blast
  with lt two_days_range_10 two_days_chronological show ?thesis by blast
qed

text \<open>
  C1 as stated asks for \<open>tf < t1\<close>. In \<open>one_day\<close> with the range from 0 to 5 the
  loop selects \<open>a\<close>, which is dated 5; the final day's last entry is after \<open>t1\<close>,
  so there is no trailing entry and the result is \<open>[a]\<close>.
\<close>

theorem range_upper_bound_counterexample:
  "range_loop one_day 0 5 0 [] None = Inr ([''a''], Some [False, True]) \<and>
   get_files_in_range one_day 0 5 False = Inr [''a''] \<and>
   name_to_date one_day ''a'' = Inr 5 \<and> \<not> (5::int) < 5"
  by (simp add: range_eval one_day_simps)

subsection \<open>The file at a date\<close>

lemma py_index_nat: "i < length xs \<Longrightarrow> py_index xs (int i) = Inr (xs ! i)"
  by (simp add: py_index_def)

lemma py_index_last: "xs \<noteq> [] \<Longrightarrow> py_index xs (int (length xs) - 1) = Inr (xs ! (length xs - 1))"
proof -
  assume "xs \<noteq> []"
  then have "int (length xs) - 1 = int (length xs - 1)" "length xs - 1 < length xs"
    by (simp_all add: of_nat_diff Suc_leI)
  then show ?thesis using py_index_nat [of "length xs - 1" xs] by simp
qed

text \<open>The index that \<open>get_file_by_date\<close> computes from the time differences.\<close>

lemma argsort_choice:
  fixes dts :: "int list" and inds :: "nat list"
  assumes perm: "set inds = {..<length dts}"
    and srt: "sorted (map (\<lambda>i. dts ! i) inds)"
    and ne: "dts \<noteq> []"
  defines "indices \<equiv> filter (\<lambda>j. dts ! (inds ! j) < 0) [0..<length inds]"
  shows "if indices = [] then (\<forall>c<length dts. \<not> dts ! c < 0)
         else inds ! last indices < length dts \<and> dts ! (inds ! last indices) < 0 \<and>
              (\<forall>c<length dts. dts ! c < 0 \<longrightarrow> dts ! c \<le> dts ! (inds ! last indices))"
proof -
  have cover: "\<exists>j\<in>set indices. inds ! j = c" if c: "c < length dts" "dts ! c < 0" for c
  proof -
    from c(1) perm have "c \<in> set inds" by simp
    then obtain j where j: "j < length inds" "inds ! j = c" by (auto simp: in_set_conv_nth)
    with c(2) have "j \<in> set indices" by (simp add: indices_def)
    with j(2) show ?thesis by blast
  qed
  show ?thesis
  proof (cases "indices = []")
    case True
    with cover show ?thesis by fastforce
  next
    case False
    define j where "j = last indices"
    from False have "j \<in> set indices" by (simp add: j_def)
    then have j: "j < length inds" "dts ! (inds ! j) < 0" by (simp_all add: indices_def)
    from j(1) perm have lt: "inds ! j < length dts"
      using nth_mem [of j inds] by simp
    have isrt: "sorted indices"
      unfolding indices_def by (rule sorted_wrt_filter) simp
    have mx: "dts ! c \<le> dts ! (inds ! j)" if c: "c < length dts" "dts ! c < 0" for c
    proof -
      from cover [OF c] obtain k where k: "k \<in> set indices" "inds ! k = c" by blast
      from sorted_le_last [OF isrt k(1)] have "k \<le> j" by (simp add: j_def)
      with srt j(1) have "map (\<lambda>i. dts ! i) inds ! k \<le> map (\<lambda>i. dts ! i) inds ! j"
        by (simp add: sorted_nth_mono del: nth_map)
      moreover from \<open>k \<le> j\<close> j(1) have "k < length inds" by simp
      ultimately show ?thesis using j(1) k(2) by simp
    qed
    from False lt j(2) mx show ?thesis by (simp add: j_def)
  qed
qed


lemma argsort_stable_valid:
  "set (argsort_stable ds) = {..<length ds}"
  "sorted (map (\<lambda>i. ds ! i) (argsort_stable ds))"
  by (simp_all add: argsort_stable_def atLeast_upt)

lemmas date_eval =
  get_file_by_date_def argsort_stable_def py_index_def py_last_slice_def Let_def
  day_key_def day_len_def

text \<open>
  C2 (as the code has it). Let \<open>argsort\<close> return, for every list, a permutation of
  its indices that sorts it. Let the candidates of \<open>get_file_by_date(t)\<close>, the last
  file of the preceding calendar day followed by the files of the day of \<open>t\<close>, be
  a non-empty list whose names all decode, to the timestamps \<open>ts\<close>. Then the call
  returns a candidate, at an index \<open>i\<close>. When some candidate is dated strictly
  before \<open>t\<close>, the returned one is dated strictly before \<open>t\<close> and no candidate dated
  strictly before \<open>t\<close> is later; a candidate dated exactly \<open>t\<close> does not count.
  Otherwise the call returns the last candidate in listing order.
\<close>

theorem file_by_date_latest_before:
  assumes perm: "\<And>ds. set (argsort ds) = {..<length ds}"
    and srt: "\<And>ds. sorted (map (\<lambda>i. ds ! i) (argsort ds))"
    and prev: "get_files p (day_key t - 1) = Inr prev"
    and cur: "get_files p (day_key t) = Inr cur"
    and ts: "map_raise (name_to_date p) (py_last_slice prev @ cur) = Inr ts"
    and ne: "py_last_slice prev @ cur \<noteq> []"
  shows "\<exists>i<length ts. get_file_by_date argsort p t = Inr ((py_last_slice prev @ cur) ! i) \<and>
           (if \<exists>c<length ts. ts ! c < t
            then ts ! i < t \<and> (\<forall>c<length ts. ts ! c < t \<longrightarrow> ts ! c \<le> ts ! i)
            else i = length ts - 1)"
proof -
  define files where "files = py_last_slice prev @ cur"
  define dts where "dts = map (\<lambda>tf. tf - t) ts"
  define inds where "inds = argsort dts"
  define indices where "indices = filter (\<lambda>j. dts ! (inds ! j) < 0) [0..<length inds]"
  have len: "length ts = length files" "length dts = length files"
    using map_raise_length [OF ts] by (simp_all add: files_def dts_def)
  from ne len have dne: "dts \<noteq> []" by (auto simp: files_def)
  have dnth: "dts ! c < 0 \<longleftrightarrow> ts ! c < t" if "c < length ts" for c
    using that by (simp add: dts_def)
  have dle: "dts ! c \<le> dts ! d \<longleftrightarrow> ts ! c \<le> ts ! d" if "c < length ts" "d < length ts" for c d
    using that by (simp add: dts_def)
  have res: "get_file_by_date argsort p t =
               py_index files (if length indices = 0 then int (length dts) - 1
                               else int (inds ! last indices))"
    using prev cur ts
    by (simp add: get_file_by_date_def day_key_prev Let_def files_def dts_def inds_def indices_def)
  have choice: "if indices = [] then (\<forall>c<length dts. \<not> dts ! c < 0)
         else inds ! last indices < length dts \<and> dts ! (inds ! last indices) < 0 \<and>
              (\<forall>c<length dts. dts ! c < 0 \<longrightarrow> dts ! c \<le> dts ! (inds ! last indices))"
    unfolding indices_def inds_def by (rule argsort_choice [OF perm srt dne])
  show ?thesis
  proof (cases "indices = []")
    case True
    with choice have none: "\<forall>c<length ts. \<not> ts ! c < t"
      using dnth len by simp
    from ne have fne: "files \<noteq> []" by (simp add: files_def)
    from True res len have "get_file_by_date argsort p t = py_index files (int (length files) - 1)"
      by simp
    with py_index_last [OF fne] have "get_file_by_date argsort p t = Inr (files ! (length ts - 1))"
      using len by simp
    moreover from fne len have "length ts - 1 < length ts" by (cases ts) auto
    ultimately show ?thesis using none unfolding files_def [symmetric] by auto
  next
    case False
    define i where "i = inds ! last indices"
    from False choice have i: "i < length ts" "dts ! i < 0"
      "\<forall>c<length ts. dts ! c < 0 \<longrightarrow> dts ! c \<le> dts ! i"
      using len by (simp_all add: i_def)
    from i(1,2) have lt: "ts ! i < t" using dnth by simp
    have mx: "\<forall>c<length ts. ts ! c < t \<longrightarrow> ts ! c \<le> ts ! i"
      using i dnth dle by blast
    from False res have "get_file_by_date argsort p t = py_index files (int i)"
      by (simp add: i_def)
    with i(1) len have "get_file_by_date argsort p t = Inr (files ! i)"
      by (simp add: py_index_nat)
    with i(1) lt mx show ?thesis unfolding files_def [symmetric] by auto
  qed
qed


theorem file_by_date_latest_before_witness:
  "get_files one_day (day_key 6 - 1) = Inr [] \<and>
   get_files one_day (day_key 6) = Inr [''a'', ''b''] \<and>
   map_raise (name_to_date one_day) [''a'', ''b''] = Inr [5, 7] \<and>
   get_file_by_date argsort_stable one_day 6 = Inr ''a''"
proof -
  have prev: "get_files one_day (day_key 6 - 1) = Inr []"
    and cur: "get_files one_day (day_key 6) = Inr [''a'', ''b'']"
    by (simp_all add: one_day_simps day_key_def day_len_def)
  have ts: "map_raise (name_to_date one_day) (py_last_slice [] @ [''a'', ''b'']) = Inr [5, 7]"
    by (simp add: one_day_simps py_last_slice_def)
  have ne: "py_last_slice [] @ [''a'', ''b''] \<noteq> []" by simp
  from file_by_date_latest_before [of argsort_stable, OF argsort_stable_valid prev cur ts ne]
  obtain i where i: "i < length [5, 7 :: int]"
    "get_file_by_date argsort_stable one_day 6 = Inr ((py_last_slice [] @ [''a'', ''b'']) ! i)"
    "if \<exists>c<length [5, 7 :: int]. [5, 7] ! c < (6 :: int)
     then [5, 7] ! i < (6 :: int) \<and> (\<forall>c<length [5, 7 :: int]. [5, 7] ! c < (6 :: int) \<longrightarrow> [5, 7] ! c \<le> [5, 7 :: int] ! i)
     else i = length [5, 7 :: int] - 1"
    by blast
  have "\<exists>c<length [5, 7 :: int]. [5, 7] ! c < (6 :: int)"
    by (intro exI [of _ 0]) simp
  with i(3) have "[5, 7] ! i < (6 :: int)" by simp
  with i(1) have "i = 0" by (cases i) auto
  with i(2) prev cur ts show ?thesis by (simp add: py_last_slice_def)
qed

text \<open>
  C2 as stated counts a candidate dated exactly \<open>t\<close>. In \<open>one_day\<close> with
  \<open>t = 7\<close> the candidates are \<open>a\<close>, dated 5, and \<open>b\<close>, dated 7; the latest
  candidate at or before \<open>t\<close> is \<open>b\<close>, and the code returns \<open>a\<close>.
\<close>

theorem file_by_date_at_t_counterexample:
  "get_files one_day (day_key (7 - day_len)) = Inr [] \<and>
   get_files one_day (day_key 7) = Inr [''a'', ''b''] \<and>
   name_to_date one_day ''a'' = Inr 5 \<and> name_to_date one_day ''b'' = Inr 7 \<and>
   (5 :: int) < 7 \<and> (7 :: int) \<le> 7 \<and>
   get_file_by_date argsort_stable one_day 7 = Inr ''a''"
  by (simp add: date_eval one_day_simps)

subsection \<open>Construction with an unsupported product\<close>

text \<open>
  C8. A product name outside the registry makes \<open>IcareProvider.__init__\<close> raise
  \<open>ValueError\<close> naming the product. \<open>CopernicusProvider.__init__\<close> raises
  \<open>AttributeError\<close> instead: it calls \<open>keys()\<close> on the list \<open>copernicus_products\<close>
  before it reaches its \<open>raise ValueError\<close>. Neither constructor takes the FTP
  server or the log of remote operations: construction involves no remote
  operation.
\<close>

theorem unsupported_product_raises:
  "(map_of icare_products product_name = None \<longrightarrow>
      IcareProvider_init product_name = Inl (ValueError product_name)) \<and>
   (product_name \<notin> set copernicus_products \<longrightarrow>
      CopernicusProvider_init product_name variables domain = Inl AttributeError)"
  by (simp add: IcareProvider_init_def CopernicusProvider_init_def)

theorem unsupported_product_raises_witness:
  "map_of icare_products ''GPM_2A_DPR'' = None \<and>
   ''GPM_2A_DPR'' \<notin> set copernicus_products \<and>
   IcareProvider_init ''GPM_2A_DPR'' = Inl (ValueError ''GPM_2A_DPR'') \<and>
   CopernicusProvider_init ''GPM_2A_DPR'' [''t2m''] None = Inl AttributeError"
proof -
  have a: "map_of icare_products ''GPM_2A_DPR'' = None"
    by (simp add: icare_products_def)
  have b: "''GPM_2A_DPR'' \<notin> set copernicus_products"
    by (simp add: copernicus_products_def)
  from unsupported_product_raises [of "''GPM_2A_DPR''" "[''t2m'']" None] a b
  show ?thesis by simp
qed

subsection \<open>The listing cache of the FTP backend\<close>

lemma icare_init_fresh: "IcareProvider_init ''CloudSat_1b_CPR'' = Inr (fst fresh_icare)"
  by (simp add: IcareProvider_init_def icare_products_def fresh_icare_def)

lemma ftp_listing_cached:
  "cache (fst st) path = Some listing \<Longrightarrow> ftp_listing_to_list srv path st = (Inr listing, st)"
  by (cases st) (simp add: ftp_listing_to_list_def)

lemma ftp_listing_effect:
  "ftp_listing_to_list srv path st = (r, st') \<Longrightarrow>
   product_path (fst st') = product_path (fst st) \<and>
   cache (fst st) \<subseteq>\<^sub>m cache (fst st') \<and>
   (\<forall>listing. r = Inr listing \<longrightarrow> cache (fst st') path = Some listing) \<and>
   (cache (fst st) path = None \<and> (\<exists>listing. r = Inr listing) \<longrightarrow>
      snd st' = snd st @ [Connect, Login, Cwd path, Nlst path]) \<and>
   (cache (fst st) path \<noteq> None \<longrightarrow> st' = st)"
  by (cases st)
     (auto simp: ftp_listing_to_list_def map_le_def split: option.splits sum.splits prod.splits)


lemma get_files_effect:
  assumes "IcareProvider_get_files mk_path srv year day st = (r, st')"
  shows "product_path (fst st') = product_path (fst st) \<and> cache (fst st) \<subseteq>\<^sub>m cache (fst st')"
proof (cases "mk_path (product_path (fst st)) year day")
  case (Inl e)
  with assms show ?thesis by (simp add: IcareProvider_get_files_def)
next
  case (Inr path)
  obtain r0 st0 where call: "ftp_listing_to_list srv path st = (r0, st0)"
    by (cases "ftp_listing_to_list srv path st")
  with assms Inr have "st' = st0"
    by (auto simp: IcareProvider_get_files_def split: sum.splits)
  with ftp_listing_effect [OF call] show ?thesis by simp
qed

lemma run_calls_effect:
  "product_path (fst (run_calls mk_path calls st)) = product_path (fst st) \<and>
   cache (fst st) \<subseteq>\<^sub>m cache (fst (run_calls mk_path calls st))"
proof (induction calls arbitrary: st)
  case Nil
  then show ?case by simp
next
  case (Cons c calls)
  obtain srv year day where c: "c = (srv, year, day)" by (cases c)
  obtain r st' where step: "IcareProvider_get_files mk_path srv year day st = (r, st')"
    by (cases "IcareProvider_get_files mk_path srv year day st")
  from get_files_effect [OF step] Cons.IH [of st'] c step show ?case
    by (auto intro: map_le_trans)
qed

lemma fresh_icare_first_call:
  "IcareProvider_get_files flat_path ftp_up 2008 32 fresh_icare =
     (Inr [''granule.hdf''],
      (\<lparr>product = ''CloudSat_1b_CPR'', product_path = ''SPACEBORNE/CLOUDSAT/1B-CPR'',
        cache = [''SPACEBORNE/CLOUDSAT/1B-CPR/day'' \<mapsto> [''granule.hdf'', ''readme.txt'']]\<rparr>,
       [Connect, Login, Cwd ''SPACEBORNE/CLOUDSAT/1B-CPR/day'',
        Nlst ''SPACEBORNE/CLOUDSAT/1B-CPR/day'']))"
  by (simp add: IcareProvider_get_files_def ftp_listing_to_list_def fresh_icare_def
      flat_path_def ftp_up_def)

text \<open>
  C9. Let a call of \<open>get_files(year, day)\<close> on an \<open>IcareProvider\<close> instance return a
  list of files. The call issued one remote listing of the day's path when the
  path was not cached, and none when it was. After any further sequence of
  \<open>get_files\<close> calls on the instance, whatever the server does in the meantime,
  a call for the same \<open>(year, day)\<close> returns the same list and leaves the instance
  and the log of remote operations as they are. No call removes or changes a
  cache entry.
\<close>

theorem listing_fetched_once:
  assumes "IcareProvider_get_files mk_path srv year day st = (Inr files, st1)"
  shows "cache (fst st) \<subseteq>\<^sub>m cache (fst st1) \<and>
         cache (fst st1) \<subseteq>\<^sub>m cache (fst (run_calls mk_path calls st1)) \<and>
         IcareProvider_get_files mk_path srv' year day (run_calls mk_path calls st1) =
           (Inr files, run_calls mk_path calls st1) \<and>
         (\<exists>path. mk_path (product_path (fst st)) year day = Inr path \<and>
            (if cache (fst st) path = None
             then snd st1 = snd st @ [Connect, Login, Cwd path, Nlst path]
             else st1 = st))"
proof -
  define st2 where "st2 = run_calls mk_path calls st1"
  from assms obtain path where path: "mk_path (product_path (fst st)) year day = Inr path"
    by (cases "mk_path (product_path (fst st)) year day")
       (auto simp: IcareProvider_get_files_def)
  with assms obtain listing where
    call: "ftp_listing_to_list srv path st = (Inr listing, st1)" and
    files: "files = filter (\<lambda>name. drop (length name - 3) name = ''hdf'') listing"
    by (auto simp: IcareProvider_get_files_def split: sum.splits prod.splits)
  from ftp_listing_effect [OF call] have
    pp1: "product_path (fst st1) = product_path (fst st)" and
    mono1: "cache (fst st) \<subseteq>\<^sub>m cache (fst st1)" and
    stored: "cache (fst st1) path = Some listing" and
    log: "if cache (fst st) path = None
          then snd st1 = snd st @ [Connect, Login, Cwd path, Nlst path] else st1 = st"
    by auto
  from run_calls_effect [of mk_path calls st1] have
    pp2: "product_path (fst st2) = product_path (fst st1)" and
    mono2: "cache (fst st1) \<subseteq>\<^sub>m cache (fst st2)"
    by (simp_all add: st2_def)
  from mono2 stored have "cache (fst st2) path = Some listing"
    by (metis domI map_le_def)
  from ftp_listing_cached [OF this] have "ftp_listing_to_list srv' path st2 = (Inr listing, st2)" .
  with path pp1 pp2 files
  have "IcareProvider_get_files mk_path srv' year day st2 = (Inr files, st2)"
    by (simp add: IcareProvider_get_files_def)
  with mono1 mono2 path log show ?thesis unfolding st2_def by blast
qed


theorem listing_fetched_once_witness:
  "fst (IcareProvider_get_files flat_path ftp_up 2008 32 fresh_icare) = Inr [''granule.hdf''] \<and>
   snd (snd (IcareProvider_get_files flat_path ftp_up 2008 32 fresh_icare)) =
     [Connect, Login, Cwd ''SPACEBORNE/CLOUDSAT/1B-CPR/day'',
      Nlst ''SPACEBORNE/CLOUDSAT/1B-CPR/day''] \<and>
   IcareProvider_get_files flat_path ftp_down 2008 32
       (snd (IcareProvider_get_files flat_path ftp_up 2008 32 fresh_icare)) =
     (Inr [''granule.hdf''], snd (IcareProvider_get_files flat_path ftp_up 2008 32 fresh_icare))"
proof -
  note first = fresh_icare_first_call
  have a: "fst (IcareProvider_get_files flat_path ftp_up 2008 32 fresh_icare) = Inr [''granule.hdf'']"
    by (simp add: first)
  have b: "snd (snd (IcareProvider_get_files flat_path ftp_up 2008 32 fresh_icare)) =
     [Connect, Login, Cwd ''SPACEBORNE/CLOUDSAT/1B-CPR/day'',
      Nlst ''SPACEBORNE/CLOUDSAT/1B-CPR/day'']"
    by (simp add: first)
  from listing_fetched_once [OF first, where calls = "[]" and srv' = ftp_down]
  have c: "IcareProvider_get_files flat_path ftp_down 2008 32
       (snd (IcareProvider_get_files flat_path ftp_up 2008 32 fresh_icare)) =
     (Inr [''granule.hdf''], snd (IcareProvider_get_files flat_path ftp_up 2008 32 fresh_icare))"
    by (simp only: first snd_conv run_calls.simps)
  from a b c show ?thesis by (intro conjI)
qed

end
